theory Spec2Isabelle
  imports Main "HOL-Library.AList"
begin

section \<open>The crossword and the creator's state\<close>

text \<open>
  The class \<open>CrosswordCreator\<close> of \<open>generate.py\<close> holds a crossword (read only) and the
  dictionary \<open>self.domains\<close>, from each variable to a set of words. The module
  \<open>crossword\<close> that declares \<open>Variable\<close> and \<open>Crossword\<close> is imported by the source;
  the creator reads four attributes of a crossword: \<open>variables\<close>, \<open>words\<close>, \<open>overlaps\<close>
  and the method \<open>neighbors\<close>. They are the fields of the record below, and what the
  creator relies on about them is the predicate \<open>wf_crossword\<close>.

  A Python set is a list without duplicates here; the order of the list stands for the
  order in which the set is iterated. \<open>set.pop()\<close> returns an arbitrary element: the
  choice is the parameter \<open>pop\<close> of \<open>ac3\<close>, given to every call, so that two calls
  may choose differently.
\<close>

datatype direction = ACROSS | DOWN

datatype variable =
  Variable (var_i: nat) (var_j: nat) (var_direction: direction) (var_length: nat)

record crossword =
  variables :: "variable list"
  words :: "string list"
  overlaps :: "variable \<times> variable \<rightharpoonup> (nat \<times> nat) option"
  neighbors :: "variable \<Rightarrow> variable list"

text \<open>
  \<open>overlaps\<close> is a dictionary whose value is \<open>None\<close> for two variables that do not cross
  and a pair of indices for two that do: a missing key is \<open>None\<close> of the map, the Python
  \<open>None\<close> is \<open>Some None\<close>.
\<close>

datatype py_error = KeyError | TypeError | IndexError

type_synonym domains = "variable \<rightharpoonup> string list"

type_synonym arc = "variable \<times> variable"

text \<open>An assignment is a Python dictionary: its keys are kept in insertion order.\<close>

type_synonym assignment = "(variable \<times> string) list"

definition wf_crossword :: "crossword \<Rightarrow> bool" where
  "wf_crossword cw \<longleftrightarrow>
     distinct (variables cw) \<and> distinct (words cw) \<and>
     (\<forall>x \<in> set (variables cw).
        distinct (neighbors cw x) \<and>
        (\<forall>y \<in> set (neighbors cw x).
           y \<in> set (variables cw) \<and> y \<noteq> x \<and>
           (case overlaps cw (x, y) of
              Some (Some (a, b)) \<Rightarrow> a < var_length x \<and> b < var_length y
            | _ \<Rightarrow> False)))"

text \<open>\<open>__init__\<close>: every variable starts with its own copy of the word list.\<close>

definition init_domains :: "crossword \<Rightarrow> domains" where
  "init_domains cw = map_of (map (\<lambda>var. (var, words cw)) (variables cw))"

text \<open>\<open>s.remove(w)\<close> raises \<open>KeyError\<close> when \<open>w\<close> is not in the set.\<close>

definition set_remove :: "'a \<Rightarrow> 'a list \<Rightarrow> py_error + 'a list" where
  "set_remove w s = (if w \<in> set s then Inr (removeAll w s) else Inl KeyError)"

definition set_add :: "'a \<Rightarrow> 'a list \<Rightarrow> 'a list" where
  "set_add w s = (if w \<in> set s then s else s @ [w])"

text \<open>\<open>w[a]\<close> on a string, for an index that is not negative.\<close>

definition str_index :: "string \<Rightarrow> nat \<Rightarrow> py_error + char" where
  "str_index w a = (if a < length w then Inr (w ! a) else Inl IndexError)"

section \<open>Node consistency\<close>

text \<open>
  The inner loop of \<open>enforce_node_consistency\<close>, over \<open>self.crossword.words\<close>, for one
  variable. Every function that writes \<open>self.domains\<close> returns the store it leaves,
  also when it raises.
\<close>

fun enforce_words :: "variable \<Rightarrow> string list \<Rightarrow> domains \<Rightarrow> (py_error + unit) \<times> domains" where
  "enforce_words variable [] doms = (Inr (), doms)"
| "enforce_words variable (word # rest) doms =
     (if var_length variable \<noteq> length word then
        (case doms variable of
           None \<Rightarrow> (Inl KeyError, doms)
         | Some s \<Rightarrow>
             (case set_remove word s of
                Inl e \<Rightarrow> (Inl e, doms)
              | Inr s' \<Rightarrow> enforce_words variable rest (doms(variable \<mapsto> s'))))
      else enforce_words variable rest doms)"

fun enforce_variables :: "variable list \<Rightarrow> string list \<Rightarrow> domains \<Rightarrow> (py_error + unit) \<times> domains" where
  "enforce_variables [] ws doms = (Inr (), doms)"
| "enforce_variables (variable # rest) ws doms =
     (case enforce_words variable ws doms of
        (Inl e, doms') \<Rightarrow> (Inl e, doms')
      | (Inr u, doms') \<Rightarrow> enforce_variables rest ws doms')"

definition enforce_node_consistency :: "crossword \<Rightarrow> domains \<Rightarrow> (py_error + unit) \<times> domains" where
  "enforce_node_consistency cw doms = enforce_variables (variables cw) (words cw) doms"

section \<open>Arc consistency\<close>

text \<open>
  The loop \<open>for checkword in self.domains[y]\<close> of \<open>revise\<close>: it has no \<open>break\<close>, so it
  indexes every word of the domain of \<open>y\<close>.
\<close>

fun revise_check :: "string \<Rightarrow> nat \<Rightarrow> nat \<Rightarrow> string list \<Rightarrow> nat \<Rightarrow> py_error + nat" where
  "revise_check word a b [] check = Inr check"
| "revise_check word a b (checkword # rest) check =
     (case str_index word a of
        Inl e \<Rightarrow> Inl e
      | Inr c \<Rightarrow>
          (case str_index checkword b of
             Inl e \<Rightarrow> Inl e
           | Inr c' \<Rightarrow> revise_check word a b rest (if c = c' then 1 else check)))"

text \<open>
  The loop \<open>for word in words\<close>, over the copy of the domain of \<open>x\<close> taken before it.
  \<open>check\<close> is 0 when the inner loop starts: it is reset at the end of every round.
\<close>

fun revise_words ::
  "variable \<Rightarrow> variable \<Rightarrow> nat \<Rightarrow> nat \<Rightarrow> string list \<Rightarrow> bool \<Rightarrow> domains \<Rightarrow> (py_error + bool) \<times> domains"
where
  "revise_words x y a b [] revision doms = (Inr revision, doms)"
| "revise_words x y a b (word # rest) revision doms =
     (case doms y of
        None \<Rightarrow> (Inl KeyError, doms)
      | Some dy \<Rightarrow>
          (case revise_check word a b dy 0 of
             Inl e \<Rightarrow> (Inl e, doms)
           | Inr check \<Rightarrow>
               if check = 0 then
                 (case doms x of
                    None \<Rightarrow> (Inl KeyError, doms)
                  | Some dx \<Rightarrow>
                      (case set_remove word dx of
                         Inl e \<Rightarrow> (Inl e, doms)
                       | Inr dx' \<Rightarrow> revise_words x y a b rest True (doms(x \<mapsto> dx'))))
               else revise_words x y a b rest revision doms))"

definition revise :: "crossword \<Rightarrow> variable \<Rightarrow> variable \<Rightarrow> domains \<Rightarrow> (py_error + bool) \<times> domains" where
  "revise cw x y doms =
     (case overlaps cw (x, y) of
        None \<Rightarrow> (Inl KeyError, doms)
      | Some None \<Rightarrow> (Inl TypeError, doms)
      | Some (Some (a, b)) \<Rightarrow>
          (case doms x of
             None \<Rightarrow> (Inl KeyError, doms)
           | Some dx \<Rightarrow> revise_words x y a b dx False doms))"

text \<open>
  The queue of \<open>ac3\<close>, lines 151 to 155: the parameter \<open>arcs\<close> is not read, every pair of
  a variable and one of its neighbours is added.
\<close>

definition ac3_queue :: "crossword \<Rightarrow> arc list option \<Rightarrow> arc list" where
  "ac3_queue cw arcs =
     fold (\<lambda>x queue. fold (\<lambda>y queue. set_add (x, y) queue) (neighbors cw x) queue)
       (variables cw) []"

text \<open>
  The arcs added for the neighbours of \<open>x\<close> after a revision, lines 162 to 164.
\<close>

definition ac3_enqueue :: "crossword \<Rightarrow> variable \<Rightarrow> variable \<Rightarrow> arc list \<Rightarrow> arc list" where
  "ac3_enqueue cw x y queue =
     fold (\<lambda>z queue. if z \<noteq> y then set_add (z, x) queue else queue) (neighbors cw x) queue"

text \<open>
  \<open>ac3\<close>. The statement \<open>return True\<close> of line 165 is inside the body of the \<open>while\<close>
  loop, after the \<open>if\<close>: every path through the body returns, so the body runs once when
  the queue is not empty and the loop's test is never reached a second time. When the
  queue is empty the body is skipped and the function ends without a \<open>return\<close>: the
  result is Python's \<open>None\<close>, here \<open>Inr None\<close>.
\<close>

definition ac3 ::
  "crossword \<Rightarrow> (arc list \<Rightarrow> arc) \<Rightarrow> arc list option \<Rightarrow> domains \<Rightarrow> (py_error + bool option) \<times> domains"
where
  "ac3 cw pop arcs doms =
     (let queue = ac3_queue cw arcs in
      if length queue \<noteq> 0 then
        (case pop queue of
           (x, y) \<Rightarrow>
             (let queue = removeAll (x, y) queue in
              case revise cw x y doms of
                (Inl e, doms') \<Rightarrow> (Inl e, doms')
              | (Inr revised, doms') \<Rightarrow>
                  if revised then
                    (case doms' x of
                       None \<Rightarrow> (Inl KeyError, doms')
                     | Some dx \<Rightarrow>
                         if length dx = 0 then (Inr (Some False), doms')
                         else
                           (let queue = ac3_enqueue cw x y queue
                            in (Inr (Some True), doms')))
                  else (Inr (Some True), doms')))
      else (Inr None, doms))"

text \<open>What \<open>set.pop()\<close> guarantees: the element it returns is one of the set.\<close>

definition pop_ok :: "(arc list \<Rightarrow> arc) \<Rightarrow> bool" where
  "pop_ok pop \<longleftrightarrow> (\<forall>queue. queue \<noteq> [] \<longrightarrow> pop queue \<in> set queue)"

section \<open>The search\<close>

definition assignment_complete :: "crossword \<Rightarrow> assignment \<Rightarrow> bool" where
  "assignment_complete cw asg = list_all (\<lambda>x. map_of asg x \<noteq> None) (variables cw)"

text \<open>
  The first pair of loops of \<open>consistent\<close>, lines 189 to 193: two different keys with
  the same word. Both loops run over the keys, so no lookup fails.
\<close>

definition same_word :: "assignment \<Rightarrow> bool" where
  "same_word asg =
     list_ex (\<lambda>x. list_ex (\<lambda>y. x \<noteq> y \<and> map_of asg x = map_of asg y) (map fst asg))
       (map fst asg)"

text \<open>
  The loop over the neighbours of one key \<open>x\<close>, lines 196 to 200. The overlap is read
  before the test \<open>var in assignment\<close>. The result \<open>Inr False\<close> is the \<open>return False\<close> of
  line 200, \<open>Inr True\<close> is the end of the loop.
\<close>

fun consistent_neighbors ::
  "crossword \<Rightarrow> assignment \<Rightarrow> variable \<Rightarrow> variable list \<Rightarrow> py_error + bool"
where
  "consistent_neighbors cw asg x [] = Inr True"
| "consistent_neighbors cw asg x (var # rest) =
     (case overlaps cw (x, var) of
        None \<Rightarrow> Inl KeyError
      | Some None \<Rightarrow> Inl TypeError
      | Some (Some (a, b)) \<Rightarrow>
          (case map_of asg var of
             None \<Rightarrow> consistent_neighbors cw asg x rest
           | Some wv \<Rightarrow>
               (case map_of asg x of
                  None \<Rightarrow> Inl KeyError
                | Some wx \<Rightarrow>
                    (case str_index wx a of
                       Inl e \<Rightarrow> Inl e
                     | Inr c \<Rightarrow>
                         (case str_index wv b of
                            Inl e \<Rightarrow> Inl e
                          | Inr c' \<Rightarrow>
                              if c \<noteq> c' then Inr False
                              else consistent_neighbors cw asg x rest)))))"

fun consistent_keys :: "crossword \<Rightarrow> assignment \<Rightarrow> variable list \<Rightarrow> py_error + bool" where
  "consistent_keys cw asg [] = Inr True"
| "consistent_keys cw asg (x # rest) =
     (case consistent_neighbors cw asg x (neighbors cw x) of
        Inl e \<Rightarrow> Inl e
      | Inr ok \<Rightarrow> if ok then consistent_keys cw asg rest else Inr False)"

definition consistent :: "crossword \<Rightarrow> assignment \<Rightarrow> py_error + bool" where
  "consistent cw asg =
     (if same_word asg then Inr False else consistent_keys cw asg (map fst asg))"

text \<open>
  \<open>order_domain_values\<close>: the count of one value, lines 218 to 221. The test
  \<open>val in self.domains[neighbor]\<close> is evaluated only when the neighbour is not assigned.
\<close>

fun count_rule_out ::
  "domains \<Rightarrow> assignment \<Rightarrow> string \<Rightarrow> variable list \<Rightarrow> nat \<Rightarrow> py_error + nat"
where
  "count_rule_out doms asg val [] count = Inr count"
| "count_rule_out doms asg val (neighbor # rest) count =
     (if map_of asg neighbor = None then
        (case doms neighbor of
           None \<Rightarrow> Inl KeyError
         | Some d \<Rightarrow> count_rule_out doms asg val rest (if val \<in> set d then count + 1 else count))
      else count_rule_out doms asg val rest count)"

fun num_rule_out ::
  "domains \<Rightarrow> assignment \<Rightarrow> variable list \<Rightarrow> string list \<Rightarrow> py_error + nat list"
where
  "num_rule_out doms asg nbs [] = Inr []"
| "num_rule_out doms asg nbs (val # rest) =
     (case count_rule_out doms asg val nbs 0 of
        Inl e \<Rightarrow> Inl e
      | Inr count \<Rightarrow>
          (case num_rule_out doms asg nbs rest of
             Inl e \<Rightarrow> Inl e
           | Inr counts \<Rightarrow> Inr (count # counts)))"

text \<open>\<open>list.sort(key=...)\<close> is stable, as \<open>sort_key\<close> is.\<close>

definition order_domain_values ::
  "crossword \<Rightarrow> domains \<Rightarrow> variable \<Rightarrow> assignment \<Rightarrow> py_error + string list"
where
  "order_domain_values cw doms var asg =
     (case doms var of
        None \<Rightarrow> Inl KeyError
      | Some vals \<Rightarrow>
          (case num_rule_out doms asg (neighbors cw var) vals of
             Inl e \<Rightarrow> Inl e
           | Inr counts \<Rightarrow> Inr (map fst (sort_key snd (zip vals counts)))))"

text \<open>
  \<open>select_unassigned_variable\<close>. The comparison function is the source's; \<open>sorted\<close> is a
  stable sort, and for a comparison that is a total preorder a stable sort has one
  result, which insertion from the right computes.
\<close>

fun compare :: "variable \<times> nat \<times> nat \<Rightarrow> variable \<times> nat \<times> nat \<Rightarrow> int" where
  "compare (x0, x1, x2) (y0, y1, y2) =
     (if x1 \<noteq> y1 then (if x1 > y1 then 1 else - 1)
      else (if x2 > y2 then - 1 else if x2 < y2 then 1 else 0))"

fun insort_cmp :: "('a \<Rightarrow> 'a \<Rightarrow> int) \<Rightarrow> 'a \<Rightarrow> 'a list \<Rightarrow> 'a list" where
  "insort_cmp cmp x [] = [x]"
| "insort_cmp cmp x (y # ys) =
     (if cmp x y \<le> 0 then x # y # ys else y # insort_cmp cmp x ys)"

definition sorted_cmp :: "('a \<Rightarrow> 'a \<Rightarrow> int) \<Rightarrow> 'a list \<Rightarrow> 'a list" where
  "sorted_cmp cmp xs = foldr (insort_cmp cmp) xs []"

fun num_val :: "domains \<Rightarrow> variable list \<Rightarrow> py_error + nat list" where
  "num_val doms [] = Inr []"
| "num_val doms (var # rest) =
     (case doms var of
        None \<Rightarrow> Inl KeyError
      | Some d \<Rightarrow>
          (case num_val doms rest of
             Inl e \<Rightarrow> Inl e
           | Inr ns \<Rightarrow> Inr (length d # ns)))"

definition select_unassigned_variable ::
  "crossword \<Rightarrow> domains \<Rightarrow> assignment \<Rightarrow> py_error + variable"
where
  "select_unassigned_variable cw doms asg =
     (let variable = filter (\<lambda>var. map_of asg var = None) (variables cw) in
      case num_val doms variable of
        Inl e \<Rightarrow> Inl e
      | Inr ns \<Rightarrow>
          (let degree = map (\<lambda>var. length (neighbors cw var)) variable;
               temp = sorted_cmp compare (zip variable (zip ns degree))
           in case temp of [] \<Rightarrow> Inl IndexError | t # _ \<Rightarrow> Inr (fst t)))"

text \<open>\<open>del d[k]\<close> raises \<open>KeyError\<close> when the key is missing.\<close>

definition dict_del :: "variable \<Rightarrow> assignment \<Rightarrow> py_error + assignment" where
  "dict_del var asg =
     (if map_of asg var = None then Inl KeyError else Inr (AList.delete var asg))"

text \<open>
  \<open>backtrack\<close> and its loop over the ordered values. The dictionary \<open>assignment\<close> is
  changed in place, so a call returns the dictionary it leaves beside its result, and
  the store \<open>self.domains\<close> it leaves, which no statement of the search writes. The
  first argument bounds the depth of the recursion: a call that would go deeper is
  \<open>None\<close>. The second \<open>assignment[var] = value\<close> of line 280 stores what is stored already.
\<close>

fun backtrack ::
  "nat \<Rightarrow> crossword \<Rightarrow> domains \<Rightarrow> assignment \<Rightarrow>
     ((py_error + assignment option) \<times> assignment \<times> domains) option"
and backtrack_values ::
  "nat \<Rightarrow> crossword \<Rightarrow> variable \<Rightarrow> string list \<Rightarrow> domains \<Rightarrow> assignment \<Rightarrow>
     ((py_error + assignment option) \<times> assignment \<times> domains) option"
where
  "backtrack 0 cw doms asg = None"
| "backtrack (Suc n) cw doms asg =
     (if assignment_complete cw asg then Some (Inr (Some asg), asg, doms)
      else
        (case select_unassigned_variable cw doms asg of
           Inl e \<Rightarrow> Some (Inl e, asg, doms)
         | Inr var \<Rightarrow>
             (case order_domain_values cw doms var asg of
                Inl e \<Rightarrow> Some (Inl e, asg, doms)
              | Inr vals \<Rightarrow> backtrack_values n cw var vals doms asg)))"
| "backtrack_values n cw var [] doms asg = Some (Inr None, asg, doms)"
| "backtrack_values n cw var (val # rest) doms asg =
     (let asg1 = AList.update var val asg in
      case consistent cw asg1 of
        Inl e \<Rightarrow> Some (Inl e, asg1, doms)
      | Inr ok \<Rightarrow>
          if ok then
            (case backtrack n cw doms (AList.update var val asg1) of
               None \<Rightarrow> None
             | Some (Inl e, asg2, doms2) \<Rightarrow> Some (Inl e, asg2, doms2)
             | Some (Inr (Some result), asg2, doms2) \<Rightarrow> Some (Inr (Some result), asg2, doms2)
             | Some (Inr None, asg2, doms2) \<Rightarrow>
                 (case dict_del var asg2 of
                    Inl e \<Rightarrow> Some (Inl e, asg2, doms2)
                  | Inr asg3 \<Rightarrow> backtrack_values n cw var rest doms2 asg3))
          else
            (case dict_del var asg1 of
               Inl e \<Rightarrow> Some (Inl e, asg1, doms)
             | Inr asg3 \<Rightarrow> backtrack_values n cw var rest doms asg3))"

text \<open>
  \<open>solve\<close>: the result of \<open>ac3\<close> is dropped, and \<open>backtrack\<close> is called on the empty
  dictionary whatever it was.
\<close>

definition solve ::
  "nat \<Rightarrow> crossword \<Rightarrow> (arc list \<Rightarrow> arc) \<Rightarrow> domains \<Rightarrow>
     ((py_error + assignment option) \<times> domains) option"
where
  "solve fuel cw pop doms =
     (case enforce_node_consistency cw doms of
        (Inl e, doms1) \<Rightarrow> Some (Inl e, doms1)
      | (Inr u, doms1) \<Rightarrow>
          (case ac3 cw pop None doms1 of
             (Inl e, doms2) \<Rightarrow> Some (Inl e, doms2)
           | (Inr r, doms2) \<Rightarrow>
               (case backtrack fuel cw doms2 [] of
                  None \<Rightarrow> None
                | Some (res, asg, doms3) \<Rightarrow> Some (res, doms3))))"

section \<open>Stating the properties\<close>

text \<open>
  \<open>dom_le doms' doms\<close>: the store \<open>doms'\<close> has the keys of \<open>doms\<close>, and under every key a
  set that is included in the one of \<open>doms\<close> and is no larger.
\<close>

definition dom_le :: "domains \<Rightarrow> domains \<Rightarrow> bool" where
  "dom_le doms' doms \<longleftrightarrow>
     (\<forall>v. (doms' v = None \<longleftrightarrow> doms v = None) \<and>
          (\<forall>s s'. doms v = Some s \<longrightarrow> doms' v = Some s' \<longrightarrow>
               set s' \<subseteq> set s \<and> length s' \<le> length s))"

text \<open>
  The store in which every variable of \<open>vs\<close> holds the words of the crossword that have
  its length, in the order of the word list.
\<close>

definition node_consistent :: "crossword \<Rightarrow> variable list \<Rightarrow> domains \<Rightarrow> domains" where
  "node_consistent cw vs doms =
     (\<lambda>v. if v \<in> set vs then Some (filter (\<lambda>w. length w = var_length v) (words cw)) else doms v)"

text \<open>
  Invariant I2 of the specification: for every variable \<open>x\<close>, every neighbour \<open>y\<close> of \<open>x\<close>
  with overlap \<open>(a, b)\<close> and every word \<open>w\<close> in the domain of \<open>x\<close>, some word \<open>w'\<close> in the
  domain of \<open>y\<close> has \<open>w[a] = w'[b]\<close>.
\<close>

definition arc_consistent :: "crossword \<Rightarrow> domains \<Rightarrow> bool" where
  "arc_consistent cw doms =
     list_all (\<lambda>x.
       list_all (\<lambda>y.
         (case (overlaps cw (x, y), doms x, doms y) of
            (Some (Some (a, b)), Some dx, Some dy) \<Rightarrow>
              list_all (\<lambda>w. list_ex (\<lambda>w'. w ! a = w' ! b) dy) dx
          | _ \<Rightarrow> True))
         (neighbors cw x))
       (variables cw)"

text \<open>
  The two conditions of the specification's \<open>consistent\<close>, in its words: two different
  slots hold the same word; two assigned slots that are neighbours disagree on the
  letter of their overlap.
\<close>

definition shares_word :: "assignment \<Rightarrow> bool" where
  "shares_word asg \<longleftrightarrow>
     (\<exists>x y w. x \<noteq> y \<and> map_of asg x = Some w \<and> map_of asg y = Some w)"

definition overlap_conflict :: "crossword \<Rightarrow> assignment \<Rightarrow> bool" where
  "overlap_conflict cw asg \<longleftrightarrow>
     (\<exists>x var a b wx wv. var \<in> set (neighbors cw x) \<and> overlaps cw (x, var) = Some (Some (a, b)) \<and>
        map_of asg x = Some wx \<and> map_of asg var = Some wv \<and> wx ! a \<noteq> wv ! b)"

text \<open>
  What keeps \<open>consistent\<close> from raising: every neighbour of an assigned slot has an
  overlap with it, and when both are assigned the two indices are inside the two words.
\<close>

definition overlaps_in_range :: "crossword \<Rightarrow> assignment \<Rightarrow> bool" where
  "overlaps_in_range cw asg \<longleftrightarrow>
     (\<forall>x \<in> fst ` set asg. \<forall>var \<in> set (neighbors cw x).
        \<exists>a b. overlaps cw (x, var) = Some (Some (a, b)) \<and>
          (\<forall>wx wv. map_of asg x = Some wx \<longrightarrow> map_of asg var = Some wv \<longrightarrow>
             a < length wx \<and> b < length wv))"

text \<open>
  The stores the search is run on: every variable of the crossword has a domain, a set
  of words of the word list that have the variable's length. Node consistency
  establishes it on the store of \<open>__init__\<close>, and \<open>ac3\<close> keeps it.
\<close>

definition store_ok :: "crossword \<Rightarrow> domains \<Rightarrow> bool" where
  "store_ok cw doms \<longleftrightarrow>
     (\<forall>v \<in> set (variables cw). \<exists>d. doms v = Some d \<and> distinct d \<and>
        (\<forall>w \<in> set d. w \<in> set (words cw) \<and> length w = var_length v))"

text \<open>
  The assignments the search builds: a dictionary (no key twice) from variables of the
  crossword to words of their domains.
\<close>

definition fits :: "crossword \<Rightarrow> domains \<Rightarrow> assignment \<Rightarrow> bool" where
  "fits cw doms asg \<longleftrightarrow>
     distinct (map fst asg) \<and>
     (\<forall>x w. map_of asg x = Some w \<longrightarrow>
        x \<in> set (variables cw) \<and> (\<exists>d. doms x = Some d \<and> w \<in> set d))"

text \<open>
  What the specification asks of the result of \<open>solve\<close>: a total mapping from the slots
  to words of the word list, each of its slot's length (I1), neighbours agreeing on the
  letter of their overlap and no word used twice (I3).
\<close>

definition solution :: "crossword \<Rightarrow> assignment \<Rightarrow> bool" where
  "solution cw asg \<longleftrightarrow>
     distinct (map fst asg) \<and>
     (\<forall>s. s \<in> set (variables cw) \<longleftrightarrow> (\<exists>w. map_of asg s = Some w)) \<and>
     (\<forall>s w. map_of asg s = Some w \<longrightarrow> w \<in> set (words cw) \<and> length w = var_length s) \<and>
     (\<forall>x \<in> set (variables cw). \<forall>y \<in> set (neighbors cw x). \<forall>a b wx wy.
        overlaps cw (x, y) = Some (Some (a, b)) \<longrightarrow>
        map_of asg x = Some wx \<longrightarrow> map_of asg y = Some wy \<longrightarrow> wx ! a = wy ! b) \<and>
     (\<forall>x y wx wy. x \<noteq> y \<longrightarrow> map_of asg x = Some wx \<longrightarrow> map_of asg y = Some wy \<longrightarrow> wx \<noteq> wy)"

definition unassigned :: "crossword \<Rightarrow> assignment \<Rightarrow> variable list" where
  "unassigned cw asg = filter (\<lambda>var. map_of asg var = None) (variables cw)"

text \<open>
  The outcome of a call of the search that does not raise and does not run out of
  depth: either no result, and the dictionary is as it was at the call, or the
  dictionary itself, complete and consistent.
\<close>

definition found :: "crossword \<Rightarrow> domains \<Rightarrow> assignment \<Rightarrow> bool" where
  "found cw doms a \<longleftrightarrow> fits cw doms a \<and> assignment_complete cw a \<and> consistent cw a = Inr True"

definition search_ok ::
  "crossword \<Rightarrow> domains \<Rightarrow> assignment \<Rightarrow>
     ((py_error + assignment option) \<times> assignment \<times> domains) option \<Rightarrow> bool"
where
  "search_ok cw doms asg out \<longleftrightarrow>
     (\<exists>res asg'. out = Some (Inr res, asg', doms) \<and>
        (res = None \<longrightarrow> asg' = asg) \<and>
        (\<forall>a. res = Some a \<longrightarrow> a = asg' \<and> found cw doms a))"

subsection \<open>Crosswords to run the code on\<close>

text \<open>
  Two slots of length 2 that cross: the first letter of the across slot is the second
  letter of the down slot. The grid is
  \<^verbatim>\<open>
  _#
  __
  \<close>
  and the word list is a parameter.
\<close>

definition slot_across :: variable where
  "slot_across = Variable 1 0 ACROSS 2"

definition slot_down :: variable where
  "slot_down = Variable 0 0 DOWN 2"

definition crossing :: "string list \<Rightarrow> crossword" where
  "crossing ws =
     \<lparr>variables = [slot_across, slot_down],
      words = ws,
      overlaps =
        map_of [((slot_across, slot_down), Some (0, 1)), ((slot_down, slot_across), Some (1, 0))],
      neighbors =
        (\<lambda>v. if v = slot_across then [slot_down] else if v = slot_down then [slot_across] else [])\<rparr>"

definition chain :: crossword where
  "chain = crossing [''AB'', ''BC'', ''CD'', ''CAT'']"

text \<open>The store of \<open>chain\<close> after node consistency.\<close>

definition chain_domains :: domains where
  "chain_domains =
     [slot_across \<mapsto> [''AB'', ''BC'', ''CD''], slot_down \<mapsto> [''AB'', ''BC'', ''CD'']]"

text \<open>The crossing with two words of length 3: no word fits a slot.\<close>

definition long_words :: crossword where
  "long_words = crossing [''CAT'', ''DOG'']"

definition no_domains :: domains where
  "no_domains = [slot_across \<mapsto> [], slot_down \<mapsto> []]"

text \<open>Two across slots of length 2 in different rows: neither has a neighbour.\<close>

definition slot_top :: variable where
  "slot_top = Variable 0 0 ACROSS 2"

definition slot_bottom :: variable where
  "slot_bottom = Variable 2 0 ACROSS 2"

definition parallel :: crossword where
  "parallel =
     \<lparr>variables = [slot_top, slot_bottom],
      words = [''AB'', ''CD''],
      overlaps = map_of [((slot_top, slot_bottom), None), ((slot_bottom, slot_top), None)],
      neighbors = (\<lambda>v. [])\<rparr>"

lemmas crossing_defs =
  crossing_def slot_across_def slot_down_def chain_def chain_domains_def long_words_def
  no_domains_def

lemmas ac3_defs =
  ac3_def ac3_queue_def ac3_enqueue_def set_add_def revise_def set_remove_def str_index_def

lemmas search_defs =
  assignment_complete_def select_unassigned_variable_def sorted_cmp_def order_domain_values_def
  consistent_def same_word_def dict_del_def Let_def

section \<open>Node consistency keeps the words of the right length\<close>

lemma enforce_words_filter:
  "doms variable = Some s \<Longrightarrow> distinct ws \<Longrightarrow>
   \<forall>w \<in> set ws. length w \<noteq> var_length variable \<longrightarrow> w \<in> set s \<Longrightarrow>
   enforce_words variable ws doms =
     (Inr (), doms(variable \<mapsto> filter (\<lambda>w. \<not> (w \<in> set ws \<and> length w \<noteq> var_length variable)) s))"
proof (induction ws arbitrary: doms s)
  case Nil
  then show ?case by (simp add: map_upd_triv)
next
  case (Cons word rest)
  show ?case
  proof (cases "var_length variable \<noteq> length word")
    case False
    then have "enforce_words variable (word # rest) doms = enforce_words variable rest doms"
      by simp
    also have "\<dots> = (Inr (), doms(variable \<mapsto>
        filter (\<lambda>w. \<not> (w \<in> set rest \<and> length w \<noteq> var_length variable)) s))"
      using Cons.prems by (intro Cons.IH) auto
    also have "filter (\<lambda>w. \<not> (w \<in> set rest \<and> length w \<noteq> var_length variable)) s =
        filter (\<lambda>w. \<not> (w \<in> set (word # rest) \<and> length w \<noteq> var_length variable)) s"
      using False by (intro filter_cong) auto
    finally show ?thesis .
  next
    case True
    let ?s' = "removeAll word s"
    let ?keep = "\<lambda>ws w. \<not> (w \<in> set ws \<and> length w \<noteq> var_length variable)"
    from True Cons.prems have mem: "word \<in> set s" by auto
    have step: "enforce_words variable (word # rest) doms =
        enforce_words variable rest (doms(variable \<mapsto> ?s'))"
      using True mem Cons.prems(1) by (simp add: set_remove_def)
    have rec: "enforce_words variable rest (doms(variable \<mapsto> ?s')) =
        (Inr (), (doms(variable \<mapsto> ?s'))(variable \<mapsto> filter (?keep rest) ?s'))"
      using Cons.prems by (intro Cons.IH) auto
    have flt: "filter (?keep rest) ?s' = filter (?keep (word # rest)) s"
      using True by (auto simp: removeAll_filter_not_eq intro: filter_cong)
    have upd: "(doms(variable \<mapsto> ?s'))(variable \<mapsto> filter (?keep rest) ?s') =
        doms(variable \<mapsto> filter (?keep (word # rest)) s)"
      unfolding flt by (rule fun_upd_upd)
    show ?thesis unfolding step rec upd ..
  qed
qed

lemma enforce_words_init:
  "doms variable = Some ws \<Longrightarrow> distinct ws \<Longrightarrow>
   enforce_words variable ws doms =
     (Inr (), doms(variable \<mapsto> filter (\<lambda>w. length w = var_length variable) ws))"
proof -
  assume a: "doms variable = Some ws" "distinct ws"
  have "filter (\<lambda>w. \<not> (w \<in> set ws \<and> length w \<noteq> var_length variable)) ws =
      filter (\<lambda>w. length w = var_length variable) ws"
    by (intro filter_cong) auto
  with enforce_words_filter [of doms variable ws ws] a show ?thesis by simp
qed

lemma enforce_variables_init:
  "distinct vs \<Longrightarrow> distinct (words cw) \<Longrightarrow> \<forall>v \<in> set vs. doms v = Some (words cw) \<Longrightarrow>
   enforce_variables vs (words cw) doms = (Inr (), node_consistent cw vs doms)"
proof (induction vs arbitrary: doms)
  case Nil
  then show ?case by (simp add: node_consistent_def)
next
  case (Cons v vs)
  let ?d = "doms(v \<mapsto> filter (\<lambda>w. length w = var_length v) (words cw))"
  have 1: "enforce_words v (words cw) doms = (Inr (), ?d)"
    using Cons.prems by (intro enforce_words_init) auto
  have 2: "enforce_variables vs (words cw) ?d = (Inr (), node_consistent cw vs ?d)"
    using Cons.prems by (intro Cons.IH) auto
  have 3: "node_consistent cw vs ?d = node_consistent cw (v # vs) doms"
    by (auto simp: node_consistent_def)
  show ?case using 1 2 3 by simp
qed

lemma init_domains_Some: "v \<in> set (variables cw) \<Longrightarrow> init_domains cw v = Some (words cw)"
  by (induction "variables cw") (auto simp: init_domains_def map_of_map_restrict restrict_map_def)

lemma init_domains_None: "v \<notin> set (variables cw) \<Longrightarrow> init_domains cw v = None"
  by (auto simp: init_domains_def map_of_map_restrict restrict_map_def)

lemma enforce_node_consistency_init:
  "distinct (variables cw) \<Longrightarrow> distinct (words cw) \<Longrightarrow>
   enforce_node_consistency cw (init_domains cw) =
     (Inr (), node_consistent cw (variables cw) (init_domains cw))"
  unfolding enforce_node_consistency_def
  by (intro enforce_variables_init) (auto simp: init_domains_Some)

lemma chain_node_consistency:
  "enforce_node_consistency chain (init_domains chain) = (Inr (), chain_domains)"
  by (simp add: enforce_node_consistency_def init_domains_def set_remove_def crossing_defs fun_eq_iff)

text \<open>
  C6. On the store that \<open>__init__\<close> builds, \<open>enforce_node_consistency\<close> returns without
  raising, and it leaves under every slot \<open>s\<close> exactly the candidate words whose length is
  the length of \<open>s\<close>: no word of another length stays, none of that length is removed,
  and what it leaves under \<open>s\<close> is a function of \<open>s\<close> and the word list alone.
\<close>

theorem enforce_node_consistency_exact:
  assumes "distinct (variables cw)" and "distinct (words cw)"
  shows "\<exists>doms'. enforce_node_consistency cw (init_domains cw) = (Inr (), doms') \<and>
           (\<forall>s \<in> set (variables cw). \<exists>d. doms' s = Some d \<and> distinct d \<and>
               set d = {w \<in> set (words cw). length w = var_length s}) \<and>
           (\<forall>s. s \<notin> set (variables cw) \<longrightarrow> doms' s = None)"
  using enforce_node_consistency_init [OF assms] assms(2)
  by (auto simp: node_consistent_def init_domains_None)

theorem enforce_node_consistency_exact_witness:
  "enforce_node_consistency chain (init_domains chain) = (Inr (), chain_domains) \<and>
   chain_domains slot_across = Some [''AB'', ''BC'', ''CD''] \<and>
   set [''AB'', ''BC'', ''CD''] = {w \<in> set (words chain). length w = var_length slot_across}"
proof -
  have d: "distinct (variables chain)" "distinct (words chain)"
    by (simp_all add: crossing_defs)
  from enforce_node_consistency_exact [OF d] obtain doms' where
    run: "enforce_node_consistency chain (init_domains chain) = (Inr (), doms')" and
    ex: "\<forall>s \<in> set (variables chain). \<exists>d. doms' s = Some d \<and> distinct d \<and>
               set d = {w \<in> set (words chain). length w = var_length s}"
    by blast
  from run have eq: "doms' = chain_domains"
    by (simp add: chain_node_consistency)
  have mem: "slot_across \<in> set (variables chain)"
    by (simp add: crossing_defs)
  have val: "chain_domains slot_across = Some [''AB'', ''BC'', ''CD'']"
    by (simp add: crossing_defs)
  from ex mem obtain d where d1: "doms' slot_across = Some d"
    and d2: "set d = {w \<in> set (words chain). length w = var_length slot_across}"
    by blast
  from d1 eq val have "d = [''AB'', ''BC'', ''CD'']"
    by (simp only: option.inject)
  with d2 have "set [''AB'', ''BC'', ''CD''] =
      {w \<in> set (words chain). length w = var_length slot_across}"
    by (simp only:)
  with val chain_node_consistency show ?thesis
    by (simp only: simp_thms)
qed

section \<open>Arc consistency only removes words\<close>

lemma dom_le_refl: "dom_le doms doms"
  by (simp add: dom_le_def)

lemma dom_le_trans:
  assumes "dom_le d3 d2" and "dom_le d2 d1"
  shows "dom_le d3 d1"
  unfolding dom_le_def
proof (intro allI conjI impI)
  fix v
  show "(d3 v = None) = (d1 v = None)"
    using assms by (simp add: dom_le_def)
next
  fix v s s'
  assume 1: "d1 v = Some s" and 3: "d3 v = Some s'"
  from assms(2) 1 obtain s2 where 2: "d2 v = Some s2"
    by (cases "d2 v") (auto simp: dom_le_def)
  from assms(2) 1 2 have "set s2 \<subseteq> set s \<and> length s2 \<le> length s"
    by (simp add: dom_le_def)
  moreover from assms(1) 2 3 have "set s' \<subseteq> set s2 \<and> length s' \<le> length s2"
    by (simp add: dom_le_def)
  ultimately show "set s' \<subseteq> set s" and "length s' \<le> length s"
    by auto
qed

lemma dom_le_remove:
  "doms x = Some dx \<Longrightarrow> set_remove w dx = Inr dx' \<Longrightarrow> dom_le (doms(x \<mapsto> dx')) doms"
  by (auto simp: dom_le_def set_remove_def split: if_splits)

lemma revise_words_dom_le:
  "revise_words x y a b ws revision doms = (r, doms') \<Longrightarrow> dom_le doms' doms"
proof (induction ws arbitrary: revision doms)
  case Nil
  then show ?case by (simp add: dom_le_refl)
next
  case (Cons word rest)
  show ?case
  proof (cases "doms y")
    case None
    with Cons.prems show ?thesis by (simp add: dom_le_refl)
  next
    case (Some dy)
    show ?thesis
    proof (cases "revise_check word a b dy 0")
      case (Inl e)
      with Some Cons.prems show ?thesis by (simp add: dom_le_refl)
    next
      case (Inr check)
      show ?thesis
      proof (cases "check = 0")
        case False
        with Inr Some Cons.prems have "revise_words x y a b rest revision doms = (r, doms')"
          by simp
        then show ?thesis by (rule Cons.IH)
      next
        case True
        show ?thesis
        proof (cases "doms x")
          case None
          with True Inr Some Cons.prems show ?thesis by (simp add: dom_le_refl)
        next
          case dx: (Some dx)
          show ?thesis
          proof (cases "set_remove word dx")
            case (Inl e)
            with dx True Inr Some Cons.prems show ?thesis by (simp add: dom_le_refl)
          next
            case rm: (Inr dx')
            with dx True Inr Some Cons.prems
            have "revise_words x y a b rest True (doms(x \<mapsto> dx')) = (r, doms')"
              by simp
            then have "dom_le doms' (doms(x \<mapsto> dx'))" by (rule Cons.IH)
            moreover have "dom_le (doms(x \<mapsto> dx')) doms" using dx rm by (rule dom_le_remove)
            ultimately show ?thesis by (rule dom_le_trans)
          qed
        qed
      qed
    qed
  qed
qed

lemma revise_dom_le: "revise cw x y doms = (r, doms') \<Longrightarrow> dom_le doms' doms"
  by (auto simp: revise_def dom_le_refl split: option.splits prod.splits dest: revise_words_dom_le)

lemma ac3_dom_le: "ac3 cw pop arcs doms = (r, doms') \<Longrightarrow> dom_le doms' doms"
  by (auto simp: ac3_def Let_def dom_le_refl split: if_splits option.splits prod.splits sum.splits
      dest: revise_dom_le)


lemma chain_ac3_hd:
  "ac3 chain hd None chain_domains =
     (Inr (Some True), chain_domains(slot_across \<mapsto> [''BC'', ''CD'']))"
  by (simp add: ac3_defs crossing_defs)

lemma chain_ac3_last:
  "ac3 chain last None chain_domains =
     (Inr (Some True), chain_domains(slot_down \<mapsto> [''AB'', ''BC'']))"
  by (simp add: ac3_defs crossing_defs)

text \<open>
  C8. Whatever \<open>ac3\<close> returns or raises, and whichever arc it pops, the store it leaves
  has the same keys as the store it was called on, and under every key a set of words
  that is included in the set before the call and has at most its size.
\<close>

theorem ac3_only_removes:
  "ac3 cw pop arcs doms = (r, doms') \<Longrightarrow>
     (doms' v = None \<longleftrightarrow> doms v = None) \<and>
     (\<forall>s s'. doms v = Some s \<longrightarrow> doms' v = Some s' \<longrightarrow>
        set s' \<subseteq> set s \<and> length s' \<le> length s)"
  using ac3_dom_le [of cw pop arcs doms r doms'] unfolding dom_le_def by blast

theorem ac3_only_removes_witness:
  "ac3 chain hd None chain_domains =
     (Inr (Some True), chain_domains(slot_across \<mapsto> [''BC'', ''CD''])) \<and>
   chain_domains slot_across = Some [''AB'', ''BC'', ''CD''] \<and>
   set [''BC'', ''CD''] \<subseteq> set [''AB'', ''BC'', ''CD''] \<and>
   length [''BC'', ''CD''] \<le> length [''AB'', ''BC'', ''CD'']"
proof -
  have before: "chain_domains slot_across = Some [''AB'', ''BC'', ''CD'']"
    by (simp add: crossing_defs)
  from ac3_only_removes [OF chain_ac3_hd, of slot_across] before chain_ac3_hd show ?thesis
    by simp
qed

section \<open>What \<open>ac3\<close> returns after one arc\<close>

text \<open>
  C1. The claim is that \<open>ac3\<close> returns \<open>True\<close> only once the queue is drained, with
  invariant I2 established. On \<open>chain\<close>, after node consistency, the queue holds the two
  arcs of the crossing. \<open>ac3\<close> pops one, revises it and returns \<open>True\<close> at line 165 with
  the other arc still queued; the store it leaves is not arc consistent, whichever of
  the two arcs was popped (\<open>hd\<close> pops the first, \<open>last\<close> the second).
\<close>

theorem ac3_True_not_arc_consistent:
  "enforce_node_consistency chain (init_domains chain) = (Inr (), chain_domains) \<and>
   ac3_queue chain None = [(slot_across, slot_down), (slot_down, slot_across)] \<and>
   fst (ac3 chain hd None chain_domains) = Inr (Some True) \<and>
   \<not> arc_consistent chain (snd (ac3 chain hd None chain_domains)) \<and>
   fst (ac3 chain last None chain_domains) = Inr (Some True) \<and>
   \<not> arc_consistent chain (snd (ac3 chain last None chain_domains))"
proof -
  have "ac3_queue chain None = [(slot_across, slot_down), (slot_down, slot_across)]"
    by (simp add: ac3_queue_def set_add_def crossing_defs)
  moreover have "\<not> arc_consistent chain (chain_domains(slot_across \<mapsto> [''BC'', ''CD'']))"
    by (simp add: arc_consistent_def crossing_defs)
  moreover have "\<not> arc_consistent chain (chain_domains(slot_down \<mapsto> [''AB'', ''BC'']))"
    by (simp add: arc_consistent_def crossing_defs)
  ultimately show ?thesis
    by (simp add: chain_node_consistency chain_ac3_hd chain_ac3_last)
qed

section \<open>The arcs given to \<open>ac3\<close>\<close>

text \<open>
  C4. The claim is that a list of arcs given to \<open>ac3\<close> is the queue it starts with. The
  code never reads \<open>arcs\<close>: called on \<open>chain\<close> with the single arc from the across slot to
  the down slot, \<open>ac3\<close> starts with both arcs of the crossing, and when \<open>pop\<close> returns the
  other one it revises the down slot, which the caller's list does not mention.
\<close>

theorem ac3_ignores_arcs:
  "ac3_queue chain (Some [(slot_across, slot_down)]) =
     [(slot_across, slot_down), (slot_down, slot_across)] \<and>
   ac3 chain last (Some [(slot_across, slot_down)]) chain_domains =
     (Inr (Some True), chain_domains(slot_down \<mapsto> [''AB'', ''BC'']))"
  by (simp add: ac3_defs crossing_defs)

section \<open>Running \<open>ac3\<close> twice\<close>

lemma revise_words_run:
  "x \<noteq> y \<Longrightarrow> doms y = Some dy \<Longrightarrow> doms x = Some cur \<Longrightarrow>
   revise_words x y a b ws revision doms = (Inr r, doms') \<Longrightarrow>
   doms' = doms(x \<mapsto> filter (\<lambda>w. \<not> (w \<in> set ws \<and> revise_check w a b dy 0 = Inr 0)) cur) \<and>
   (\<forall>w \<in> set ws. \<exists>c. revise_check w a b dy 0 = Inr c)"
proof (induction ws arbitrary: revision doms cur)
  case Nil
  then show ?case by (auto simp: map_upd_triv)
next
  case (Cons word rest)
  from Cons.prems obtain check where chk: "revise_check word a b dy 0 = Inr check"
    by (cases "revise_check word a b dy 0") auto
  show ?case
  proof (cases "check = 0")
    case False
    with chk Cons.prems have run: "revise_words x y a b rest revision doms = (Inr r, doms')"
      by simp
    from Cons.IH [OF Cons.prems(1-3) run]
    have "doms' = doms(x \<mapsto> filter (\<lambda>w. \<not> (w \<in> set rest \<and> revise_check w a b dy 0 = Inr 0)) cur)"
      and "\<forall>w \<in> set rest. \<exists>c. revise_check w a b dy 0 = Inr c"
      by auto
    moreover have "filter (\<lambda>w. \<not> (w \<in> set rest \<and> revise_check w a b dy 0 = Inr 0)) cur =
        filter (\<lambda>w. \<not> (w \<in> set (word # rest) \<and> revise_check w a b dy 0 = Inr 0)) cur"
      using chk False by (intro filter_cong) auto
    ultimately show ?thesis using chk by auto
  next
    case True
    let ?cur' = "removeAll word cur"
    from True chk Cons.prems have mem: "word \<in> set cur"
      by (auto simp: set_remove_def split: if_splits)
    with True chk Cons.prems
    have run: "revise_words x y a b rest True (doms(x \<mapsto> ?cur')) = (Inr r, doms')"
      by (simp add: set_remove_def)
    have y': "(doms(x \<mapsto> ?cur')) y = Some dy" using Cons.prems by simp
    have x': "(doms(x \<mapsto> ?cur')) x = Some ?cur'" by simp
    from Cons.IH [OF Cons.prems(1) y' x' run]
    have 1: "doms' = (doms(x \<mapsto> ?cur'))(x \<mapsto>
          filter (\<lambda>w. \<not> (w \<in> set rest \<and> revise_check w a b dy 0 = Inr 0)) ?cur')"
      and 2: "\<forall>w \<in> set rest. \<exists>c. revise_check w a b dy 0 = Inr c"
      by auto
    have flt: "filter (\<lambda>w. \<not> (w \<in> set rest \<and> revise_check w a b dy 0 = Inr 0)) ?cur' =
        filter (\<lambda>w. \<not> (w \<in> set (word # rest) \<and> revise_check w a b dy 0 = Inr 0)) cur"
      using True chk by (auto simp: removeAll_filter_not_eq intro: filter_cong)
    from 1 have "doms' = doms(x \<mapsto>
          filter (\<lambda>w. \<not> (w \<in> set (word # rest) \<and> revise_check w a b dy 0 = Inr 0)) cur)"
      unfolding flt by simp
    with 2 chk show ?thesis by auto
  qed
qed

lemma revise_words_supported:
  "doms y = Some dy \<Longrightarrow>
   \<forall>w \<in> set ws. \<exists>c. revise_check w a b dy 0 = Inr c \<and> c \<noteq> 0 \<Longrightarrow>
   revise_words x y a b ws revision doms = (Inr revision, doms)"
  by (induction ws) auto

lemma revise_twice:
  assumes "x \<noteq> y" and "revise cw x y doms = (Inr r, doms')"
  shows "revise cw x y doms' = (Inr False, doms')"
proof -
  from assms(2) obtain a b where ov: "overlaps cw (x, y) = Some (Some (a, b))"
    by (auto simp: revise_def split: option.splits)
  from assms(2) ov obtain dx where dx: "doms x = Some dx"
    by (auto simp: revise_def split: option.splits)
  from assms(2) ov dx have run: "revise_words x y a b dx False doms = (Inr r, doms')"
    by (simp add: revise_def)
  show ?thesis
  proof (cases "doms y")
    case None
    with run have "dx = []" by (cases dx) auto
    with run have "doms' = doms" by simp
    with ov dx \<open>dx = []\<close> show ?thesis by (simp add: revise_def)
  next
    case (Some dy)
    let ?dx' = "filter (\<lambda>w. \<not> (w \<in> set dx \<and> revise_check w a b dy 0 = Inr 0)) dx"
    from revise_words_run [OF assms(1) Some dx run]
    have d': "doms' = doms(x \<mapsto> ?dx')"
      and ok: "\<forall>w \<in> set dx. \<exists>c. revise_check w a b dy 0 = Inr c"
      by auto
    have y': "doms' y = Some dy" using d' Some assms(1) by simp
    have x': "doms' x = Some ?dx'" using d' by simp
    have sup: "\<forall>w \<in> set ?dx'. \<exists>c. revise_check w a b dy 0 = Inr c \<and> c \<noteq> 0"
      using ok by auto
    have "revise_words x y a b ?dx' False doms' = (Inr False, doms')"
      using y' sup by (rule revise_words_supported)
    with ov x' show ?thesis by (simp add: revise_def)
  qed
qed

lemma ac3_queue_fold_mem:
  "(x, y) \<in> set (fold (\<lambda>x queue. fold (\<lambda>y queue. set_add (x, y) queue) (neighbors cw x) queue) vs q)
   \<Longrightarrow> (x, y) \<in> set q \<or> (x \<in> set vs \<and> y \<in> set (neighbors cw x))"
proof (induction vs arbitrary: q)
  case Nil
  then show ?case by simp
next
  case (Cons v vs)
  have inner: "\<And>ns q. (x, y) \<in> set (fold (\<lambda>y queue. set_add (v, y) queue) ns q) \<Longrightarrow>
      (x, y) \<in> set q \<or> (x = v \<and> y \<in> set ns)"
  proof -
    fix ns q
    show "(x, y) \<in> set (fold (\<lambda>y queue. set_add (v, y) queue) ns q) \<Longrightarrow>
      (x, y) \<in> set q \<or> (x = v \<and> y \<in> set ns)"
      by (induction ns arbitrary: q) (fastforce simp: set_add_def split: if_splits)+
  qed
  from Cons.prems have "(x, y) \<in> set (fold (\<lambda>x queue. fold (\<lambda>y queue. set_add (x, y) queue)
      (neighbors cw x) queue) vs (fold (\<lambda>y queue. set_add (v, y) queue) (neighbors cw v) q))"
    by simp
  from Cons.IH [OF this] inner show ?case by auto
qed

lemma ac3_queue_mem:
  "(x, y) \<in> set (ac3_queue cw arcs) \<Longrightarrow> x \<in> set (variables cw) \<and> y \<in> set (neighbors cw x)"
  unfolding ac3_queue_def by (drule ac3_queue_fold_mem) simp

text \<open>
  Two calls of \<open>ac3\<close> in a row that pop the same arc \<open>(x, y)\<close>: when the first returns,
  every word left in the domain of \<open>x\<close> has a partner in the domain of \<open>y\<close>, which the
  call did not touch, so the second removes nothing.
\<close>

lemma ac3_same_arc_twice:
  assumes pop: "pop_ok pop"
    and irrefl: "\<forall>x \<in> set (variables cw). x \<notin> set (neighbors cw x)"
    and first: "ac3 cw pop None doms = (Inr r, doms')"
  shows "\<exists>r'. ac3 cw pop None doms' = (Inr r', doms')"
proof (cases "ac3_queue cw None = []")
  case True
  then show ?thesis by (simp add: ac3_def)
next
  case False
  obtain x y where xy: "pop (ac3_queue cw None) = (x, y)"
    by (cases "pop (ac3_queue cw None)")
  from pop False have "pop (ac3_queue cw None) \<in> set (ac3_queue cw None)"
    by (simp add: pop_ok_def)
  with xy ac3_queue_mem [of x y cw None] irrefl have neq: "x \<noteq> y"
    by auto
  from first False xy obtain revised where rev: "revise cw x y doms = (Inr revised, doms')"
    by (auto simp: ac3_def Let_def split: sum.splits prod.splits if_splits option.splits)
  from revise_twice [OF neq rev] False xy show ?thesis
    by (simp add: ac3_def)
qed


section \<open>The consistency check\<close>

lemma key_iff: "x \<in> fst ` set asg \<longleftrightarrow> (\<exists>w. map_of asg x = Some w)"
  using map_of_eq_None_iff [of asg x] by auto

lemma same_word_iff: "same_word asg \<longleftrightarrow> shares_word asg"
proof
  assume "same_word asg"
  then obtain x y where "x \<in> fst ` set asg" "x \<noteq> y" "map_of asg x = map_of asg y"
    by (auto simp: same_word_def list_ex_iff)
  then show "shares_word asg"
    unfolding shares_word_def key_iff by metis
next
  assume "shares_word asg"
  then obtain x y w where *: "x \<noteq> y" "map_of asg x = Some w" "map_of asg y = Some w"
    by (auto simp: shares_word_def)
  then have "x \<in> fst ` set asg" "y \<in> fst ` set asg"
    by (auto simp only: key_iff)
  with * show "same_word asg"
    unfolding same_word_def list_ex_iff set_map by (intro bexI [of _ x] bexI [of _ y]) auto
qed

lemma consistent_neighbors_iff:
  assumes "map_of asg x = Some wx"
    and "\<forall>var \<in> set ns. \<exists>a b. overlaps cw (x, var) = Some (Some (a, b)) \<and>
          (\<forall>wv. map_of asg var = Some wv \<longrightarrow> a < length wx \<and> b < length wv)"
  shows "consistent_neighbors cw asg x ns =
     Inr (\<not> (\<exists>var \<in> set ns. \<exists>a b wv. overlaps cw (x, var) = Some (Some (a, b)) \<and>
        map_of asg var = Some wv \<and> wx ! a \<noteq> wv ! b))"
  using assms(2)
proof (induction ns)
  case Nil
  then show ?case by simp
next
  case (Cons var rest)
  then obtain a b where ov: "overlaps cw (x, var) = Some (Some (a, b))"
    and rng: "\<forall>wv. map_of asg var = Some wv \<longrightarrow> a < length wx \<and> b < length wv"
    by auto
  have IH: "consistent_neighbors cw asg x rest =
     Inr (\<not> (\<exists>var \<in> set rest. \<exists>a b wv. overlaps cw (x, var) = Some (Some (a, b)) \<and>
        map_of asg var = Some wv \<and> wx ! a \<noteq> wv ! b))"
    using Cons by simp
  show ?case
  proof (cases "map_of asg var")
    case None
    with ov IH show ?thesis by simp
  next
    case (Some wv)
    with rng have "a < length wx" "b < length wv" by auto
    with ov Some IH assms(1) show ?thesis
      by (auto simp: str_index_def)
  qed
qed

lemma consistent_keys_iff:
  assumes "\<forall>x \<in> set ks. \<exists>wx. map_of asg x = Some wx"
    and "\<forall>x \<in> set ks. \<forall>var \<in> set (neighbors cw x).
        \<exists>a b. overlaps cw (x, var) = Some (Some (a, b)) \<and>
          (\<forall>wx wv. map_of asg x = Some wx \<longrightarrow> map_of asg var = Some wv \<longrightarrow>
             a < length wx \<and> b < length wv)"
  shows "consistent_keys cw asg ks =
     Inr (\<not> (\<exists>x \<in> set ks. \<exists>var \<in> set (neighbors cw x). \<exists>a b wx wv.
        overlaps cw (x, var) = Some (Some (a, b)) \<and>
        map_of asg x = Some wx \<and> map_of asg var = Some wv \<and> wx ! a \<noteq> wv ! b))"
  using assms
proof (induction ks)
  case Nil
  then show ?case by simp
next
  case (Cons x rest)
  from Cons.prems obtain wx where wx: "map_of asg x = Some wx" by auto
  have rng: "\<forall>var \<in> set (neighbors cw x). \<exists>a b. overlaps cw (x, var) = Some (Some (a, b)) \<and>
          (\<forall>wv. map_of asg var = Some wv \<longrightarrow> a < length wx \<and> b < length wv)"
    using Cons.prems(2) wx by fastforce
  note nb = consistent_neighbors_iff [OF wx rng]
  have IH: "consistent_keys cw asg rest =
     Inr (\<not> (\<exists>x \<in> set rest. \<exists>var \<in> set (neighbors cw x). \<exists>a b wx wv.
        overlaps cw (x, var) = Some (Some (a, b)) \<and>
        map_of asg x = Some wx \<and> map_of asg var = Some wv \<and> wx ! a \<noteq> wv ! b))"
    using Cons by simp
  show ?case
    unfolding consistent_keys.simps nb IH using wx by auto
qed

lemma consistent_eq:
  assumes "overlaps_in_range cw asg"
  shows "consistent cw asg = Inr (\<not> shares_word asg \<and> \<not> overlap_conflict cw asg)"
proof -
  have keys: "\<forall>x \<in> set (map fst asg). \<exists>wx. map_of asg x = Some wx"
    unfolding set_map using key_iff [of _ asg] by blast
  have rng: "\<forall>x \<in> set (map fst asg). \<forall>var \<in> set (neighbors cw x).
        \<exists>a b. overlaps cw (x, var) = Some (Some (a, b)) \<and>
          (\<forall>wx wv. map_of asg x = Some wx \<longrightarrow> map_of asg var = Some wv \<longrightarrow>
             a < length wx \<and> b < length wv)"
    using assms by (simp add: overlaps_in_range_def)
  have conf: "(\<exists>x \<in> set (map fst asg). \<exists>var \<in> set (neighbors cw x). \<exists>a b wx wv.
        overlaps cw (x, var) = Some (Some (a, b)) \<and>
        map_of asg x = Some wx \<and> map_of asg var = Some wv \<and> wx ! a \<noteq> wv ! b)
      \<longleftrightarrow> overlap_conflict cw asg"
  proof
    assume "\<exists>x \<in> set (map fst asg). \<exists>var \<in> set (neighbors cw x). \<exists>a b wx wv.
        overlaps cw (x, var) = Some (Some (a, b)) \<and>
        map_of asg x = Some wx \<and> map_of asg var = Some wv \<and> wx ! a \<noteq> wv ! b"
    then show "overlap_conflict cw asg"
      unfolding overlap_conflict_def by blast
  next
    assume "overlap_conflict cw asg"
    then obtain x var a b wx wv where *: "var \<in> set (neighbors cw x)"
      "overlaps cw (x, var) = Some (Some (a, b))"
      "map_of asg x = Some wx" "map_of asg var = Some wv" "wx ! a \<noteq> wv ! b"
      unfolding overlap_conflict_def by blast
    from *(3) have "x \<in> set (map fst asg)"
      unfolding set_map using key_iff [of x asg] by blast
    with * show "\<exists>x \<in> set (map fst asg). \<exists>var \<in> set (neighbors cw x). \<exists>a b wx wv.
        overlaps cw (x, var) = Some (Some (a, b)) \<and>
        map_of asg x = Some wx \<and> map_of asg var = Some wv \<and> wx ! a \<noteq> wv ! b"
      by blast
  qed
  show ?thesis
    unfolding consistent_def consistent_keys_iff [OF keys rng] conf same_word_iff
    by simp
qed

text \<open>
  C7. \<open>consistent\<close> returns \<open>False\<close> when two different assigned slots hold the same word,
  \<open>False\<close> when two assigned neighbours disagree on the letter of their overlap, and
  \<open>True\<close> otherwise. It reads the assignment and the crossword only: the source's
  function has no statement that writes the dictionary or \<open>self.domains\<close>, so its model
  returns a truth value and nothing else. The hypothesis is what keeps the indexing of
  line 199 inside the words; every assignment that the search builds on a well-formed
  crossword satisfies it.
\<close>

theorem consistent_iff:
  assumes "overlaps_in_range cw asg"
  shows "consistent cw asg = Inr (\<not> shares_word asg \<and> \<not> overlap_conflict cw asg)"
  using assms by (rule consistent_eq)

theorem consistent_iff_witness:
  "consistent chain [(slot_across, ''BC''), (slot_down, ''AB'')] = Inr True \<and>
   \<not> shares_word [(slot_across, ''BC''), (slot_down, ''AB'')] \<and>
   \<not> overlap_conflict chain [(slot_across, ''BC''), (slot_down, ''AB'')] \<and>
   consistent chain [(slot_across, ''AB''), (slot_down, ''AB'')] = Inr False \<and>
   shares_word [(slot_across, ''AB''), (slot_down, ''AB'')]"
proof -
  let ?good = "[(slot_across, ''BC''), (slot_down, ''AB'')]"
  let ?bad = "[(slot_across, ''AB''), (slot_down, ''AB'')]"
  have rg: "overlaps_in_range chain ?good" and rb: "overlaps_in_range chain ?bad"
    by (simp_all add: overlaps_in_range_def crossing_defs)
  have cg: "consistent chain ?good = Inr True"
    by (simp add: consistent_def same_word_def str_index_def crossing_defs)
  have cb: "consistent chain ?bad = Inr False"
    by (simp add: consistent_def same_word_def str_index_def crossing_defs)
  have sb: "shares_word ?bad"
    unfolding shares_word_def
    by (intro exI [of _ slot_across] exI [of _ slot_down] exI [of _ "''AB''"])
      (simp add: crossing_defs)
  from consistent_iff [OF rg] consistent_iff [OF rb] cg cb sb show ?thesis
    by simp
qed

section \<open>The search leaves the domains alone\<close>

lemma backtrack_frame_both:
  "(\<forall>r asg' doms'. backtrack n cw doms asg = Some (r, asg', doms') \<longrightarrow> doms' = doms) \<and>
   (\<forall>r asg' doms'. backtrack_values n cw var vals doms asg = Some (r, asg', doms') \<longrightarrow> doms' = doms)"
proof (induction n arbitrary: asg var vals)
  case 0
  have "\<forall>r asg' doms'. backtrack_values 0 cw var vals doms asg = Some (r, asg', doms') \<longrightarrow> doms' = doms"
  proof (induction vals arbitrary: asg)
    case Nil
    then show ?case by simp
  next
    case (Cons val rest)
    show ?case
      using Cons.IH
      by (auto simp: Let_def split: sum.splits if_splits)
  qed
  then show ?case by simp
next
  case (Suc n)
  have P: "\<And>asg r asg' doms'. backtrack n cw doms asg = Some (r, asg', doms') \<Longrightarrow> doms' = doms"
    using Suc.IH by blast
  have Q: "\<forall>r asg' doms'. backtrack_values n cw var vals doms asg = Some (r, asg', doms') \<longrightarrow> doms' = doms"
    for var vals asg
    using Suc.IH by blast
  have Q': "\<forall>r asg' doms'. backtrack_values (Suc n) cw var vals doms asg = Some (r, asg', doms') \<longrightarrow> doms' = doms"
    for var vals asg
  proof (induction vals arbitrary: asg)
    case Nil
    then show ?case by simp
  next
    case (Cons val rest)
    have P': "\<And>asg r asg' doms'. backtrack (Suc n) cw doms asg = Some (r, asg', doms') \<Longrightarrow> doms' = doms"
      using Q by (auto split: if_splits sum.splits)
    show ?case
    proof (intro allI impI)
      fix r asg' doms'
      assume run: "backtrack_values (Suc n) cw var (val # rest) doms asg = Some (r, asg', doms')"
      let ?asg1 = "AList.update var val asg"
      show "doms' = doms"
      proof (cases "consistent cw ?asg1")
        case (Inl e)
        with run show ?thesis by (simp add: Let_def)
      next
        case (Inr ok)
        show ?thesis
        proof (cases ok)
          case False
          with Inr run Cons.IH show ?thesis
            by (auto simp: Let_def split: sum.splits)
        next
          case True
          show ?thesis
          proof (cases "backtrack (Suc n) cw doms (AList.update var val ?asg1)")
            case None
            with True Inr run show ?thesis by (simp add: Let_def)
          next
            case (Some res)
            obtain r2 asg2 doms2 where res: "res = (r2, asg2, doms2)" by (cases res)
            from P' Some res have d2: "doms2 = doms" by blast
            from True Inr run Some res d2 Cons.IH show ?thesis
              by (auto simp: Let_def split: sum.splits option.splits)
          qed
        qed
      qed
    qed
  qed
  show ?case using Q Q' by (auto split: if_splits sum.splits)
qed

lemma chain_backtrack:
  "backtrack 3 chain chain_domains [] =
     Some (Inr (Some [(slot_across, ''BC''), (slot_down, ''AB'')]),
           [(slot_across, ''BC''), (slot_down, ''AB'')], chain_domains)"
  by (simp add: numeral_3_eq_3 search_defs crossing_defs str_index_def)

text \<open>
  C9. A call of \<open>backtrack\<close> that returns, or raises, leaves \<open>self.domains\<close> as it found
  it, for every assignment it is called on and every depth of recursion: the search
  changes the dictionary \<open>assignment\<close> only.
\<close>

theorem backtrack_leaves_domains:
  "backtrack n cw doms asg = Some (r, asg', doms') \<Longrightarrow> doms' = doms"
  using backtrack_frame_both [of n cw doms asg] by blast

theorem backtrack_leaves_domains_witness:
  "fst (the (backtrack 3 chain chain_domains [])) =
     Inr (Some [(slot_across, ''BC''), (slot_down, ''AB'')]) \<and>
   snd (snd (the (backtrack 3 chain chain_domains []))) = chain_domains"
proof -
  obtain r asg' doms' where run: "backtrack 3 chain chain_domains [] = Some (r, asg', doms')"
    using chain_backtrack by blast
  from backtrack_leaves_domains [OF run] have "doms' = chain_domains" .
  with run chain_backtrack show ?thesis by simp
qed

section \<open>The search returns a solution or nothing\<close>

subsection \<open>Assignments and stores\<close>

lemma fitsD:
  "fits cw doms asg \<Longrightarrow> map_of asg x = Some w \<Longrightarrow>
     x \<in> set (variables cw) \<and> (\<exists>d. doms x = Some d \<and> w \<in> set d)"
  unfolding fits_def by blast

lemma store_okD:
  "store_ok cw doms \<Longrightarrow> v \<in> set (variables cw) \<Longrightarrow>
     \<exists>d. doms v = Some d \<and> (\<forall>w \<in> set d. w \<in> set (words cw) \<and> length w = var_length v)"
  unfolding store_ok_def by blast

lemma fits_word:
  assumes "store_ok cw doms" and "fits cw doms asg" and "map_of asg v = Some w"
  shows "w \<in> set (words cw) \<and> length w = var_length v"
proof -
  from fitsD [OF assms(2,3)] obtain d where v: "v \<in> set (variables cw)"
    and d: "doms v = Some d" and w: "w \<in> set d" by blast
  from store_okD [OF assms(1) v] d w show ?thesis by auto
qed

lemma wf_overlap:
  assumes "wf_crossword cw" and "x \<in> set (variables cw)" and "y \<in> set (neighbors cw x)"
  shows "\<exists>a b. overlaps cw (x, y) = Some (Some (a, b)) \<and> a < var_length x \<and> b < var_length y"
proof -
  from assms have "case overlaps cw (x, y) of
      Some (Some (a, b)) \<Rightarrow> a < var_length x \<and> b < var_length y | _ \<Rightarrow> False"
    unfolding wf_crossword_def by blast
  then show ?thesis by (auto split: option.splits)
qed

lemma wf_neighbor:
  assumes "wf_crossword cw" and "x \<in> set (variables cw)" and "y \<in> set (neighbors cw x)"
  shows "y \<in> set (variables cw) \<and> y \<noteq> x"
  using assms unfolding wf_crossword_def by blast

lemma fits_in_range:
  assumes wf: "wf_crossword cw" and st: "store_ok cw doms" and fit: "fits cw doms asg"
  shows "overlaps_in_range cw asg"
  unfolding overlaps_in_range_def
proof (intro ballI)
  fix x var
  assume "x \<in> fst ` set asg" and nb: "var \<in> set (neighbors cw x)"
  then obtain w0 where "map_of asg x = Some w0" using key_iff [of x asg] by blast
  with fit have xv: "x \<in> set (variables cw)" using fitsD by blast
  from wf_overlap [OF wf xv nb] obtain a b where ov: "overlaps cw (x, var) = Some (Some (a, b))"
    and a: "a < var_length x" and b: "b < var_length var"
    by blast
  have "a < length wx \<and> b < length wv"
    if "map_of asg x = Some wx" "map_of asg var = Some wv" for wx wv
    using fits_word [OF st fit that(1)] fits_word [OF st fit that(2)] a b by simp
  with ov show "\<exists>a b. overlaps cw (x, var) = Some (Some (a, b)) \<and>
          (\<forall>wx wv. map_of asg x = Some wx \<longrightarrow> map_of asg var = Some wv \<longrightarrow>
             a < length wx \<and> b < length wv)"
    by blast
qed

lemma fits_solution:
  assumes wf: "wf_crossword cw" and st: "store_ok cw doms" and fit: "fits cw doms asg"
    and complete: "assignment_complete cw asg" and ok: "consistent cw asg = Inr True"
  shows "solution cw asg"
proof -
  from consistent_eq [OF fits_in_range [OF wf st fit]] ok
  have ns: "\<not> shares_word asg" and nc: "\<not> overlap_conflict cw asg" by auto
  have 1: "distinct (map fst asg)" using fit by (simp add: fits_def)
  have 2: "\<forall>s. s \<in> set (variables cw) \<longleftrightarrow> (\<exists>w. map_of asg s = Some w)"
  proof (intro allI iffI)
    fix s assume "s \<in> set (variables cw)"
    with complete have "map_of asg s \<noteq> None"
      by (simp add: assignment_complete_def list_all_iff)
    then show "\<exists>w. map_of asg s = Some w" by blast
  next
    fix s assume "\<exists>w. map_of asg s = Some w"
    with fit show "s \<in> set (variables cw)" using fitsD by blast
  qed
  have 3: "\<forall>s w. map_of asg s = Some w \<longrightarrow> w \<in> set (words cw) \<and> length w = var_length s"
    using fits_word [OF st fit] by blast
  have 4: "\<forall>x \<in> set (variables cw). \<forall>y \<in> set (neighbors cw x). \<forall>a b wx wy.
        overlaps cw (x, y) = Some (Some (a, b)) \<longrightarrow>
        map_of asg x = Some wx \<longrightarrow> map_of asg y = Some wy \<longrightarrow> wx ! a = wy ! b"
    using nc unfolding overlap_conflict_def by blast
  have 5: "\<forall>x y wx wy. x \<noteq> y \<longrightarrow> map_of asg x = Some wx \<longrightarrow> map_of asg y = Some wy \<longrightarrow> wx \<noteq> wy"
    using ns unfolding shares_word_def by blast
  show ?thesis unfolding solution_def using 1 2 3 4 5 by blast
qed

lemma set_insort_cmp: "set (insort_cmp cmp x ys) = insert x (set ys)"
  by (induction ys) auto

lemma set_sorted_cmp: "set (sorted_cmp cmp xs) = set xs"
  unfolding sorted_cmp_def by (induction xs) (auto simp: set_insort_cmp)

lemma hd_insort_cmp:
  "hd (insort_cmp cmp x ys) = (if ys = [] \<or> cmp x (hd ys) \<le> 0 then x else hd ys)"
  by (cases ys) auto

lemma insort_cmp_nonempty: "insort_cmp cmp x ys \<noteq> []"
  by (cases ys) auto

lemma compare_le: "compare s t \<le> 0 \<Longrightarrow> fst (snd s) \<le> fst (snd t)"
  by (cases s; cases t) (auto split: if_splits)

lemma compare_gt: "\<not> compare s t \<le> 0 \<Longrightarrow> fst (snd t) \<le> fst (snd s)"
  by (cases s; cases t) (auto split: if_splits)

lemma hd_sorted_cmp_min:
  "t \<in> set xs \<Longrightarrow> fst (snd (hd (sorted_cmp compare xs))) \<le> fst (snd t)"
proof (induction xs arbitrary: t)
  case Nil
  then show ?case by simp
next
  case (Cons x xs)
  let ?ys = "sorted_cmp compare xs"
  have unfold: "sorted_cmp compare (x # xs) = insort_cmp compare x ?ys"
    by (simp add: sorted_cmp_def)
  show ?case
  proof (cases "xs = []")
    case True
    with Cons.prems show ?thesis by (simp add: sorted_cmp_def)
  next
    case False
    then have ne: "?ys \<noteq> []"
      using set_sorted_cmp [of compare xs] by auto
    then have hdmem: "hd ?ys \<in> set xs"
      using set_sorted_cmp [of compare xs] hd_in_set by blast
    show ?thesis
    proof (cases "compare x (hd ?ys) \<le> 0")
      case True
      then have h: "hd (sorted_cmp compare (x # xs)) = x"
        by (simp add: unfold hd_insort_cmp)
      from True have le: "fst (snd x) \<le> fst (snd (hd ?ys))" by (rule compare_le)
      show ?thesis
      proof (cases "t = x")
        case True
        with h show ?thesis by simp
      next
        case False
        with Cons.prems have "t \<in> set xs" by simp
        from Cons.IH [OF this] le h show ?thesis by simp
      qed
    next
      case gt: False
      then have h: "hd (sorted_cmp compare (x # xs)) = hd ?ys"
        using ne by (simp add: unfold hd_insort_cmp)
      from gt have le: "fst (snd (hd ?ys)) \<le> fst (snd x)" by (rule compare_gt)
      show ?thesis
      proof (cases "t = x")
        case True
        with h le show ?thesis by simp
      next
        case False
        with Cons.prems have "t \<in> set xs" by simp
        from Cons.IH [OF this] h show ?thesis by simp
      qed
    qed
  qed
qed

lemma num_val_ok:
  "\<forall>v \<in> set vs. doms v \<noteq> None \<Longrightarrow>
   num_val doms vs = Inr (map (\<lambda>v. length (the (doms v))) vs)"
  by (induction vs) auto

lemma zip3_map: "zip vs (zip (map f vs) (map g vs)) = map (\<lambda>v. (v, f v, g v)) vs"
  by (induction vs) auto

lemma select_ok:
  assumes st: "store_ok cw doms" and nc: "\<not> assignment_complete cw asg"
  shows "\<exists>var. select_unassigned_variable cw doms asg = Inr var \<and>
           var \<in> set (variables cw) \<and> map_of asg var = None \<and>
           (\<forall>v \<in> set (variables cw). map_of asg v = None \<longrightarrow>
              length (the (doms var)) \<le> length (the (doms v)))"
proof -
  let ?vs = "filter (\<lambda>var. map_of asg var = None) (variables cw)"
  let ?f = "\<lambda>v. length (the (doms v))"
  let ?g = "\<lambda>var. length (neighbors cw var)"
  let ?zs = "map (\<lambda>v. (v, ?f v, ?g v)) ?vs"
  let ?temp = "sorted_cmp compare ?zs"
  from nc have ne: "?vs \<noteq> []"
    by (auto simp: assignment_complete_def list_all_iff filter_empty_conv)
  have "\<forall>v \<in> set ?vs. doms v \<noteq> None"
    using store_okD [OF st] by fastforce
  then have nv: "num_val doms ?vs = Inr (map ?f ?vs)" by (rule num_val_ok)
  have settemp: "set ?temp = set ?zs" by (rule set_sorted_cmp)
  with ne have tne: "?temp \<noteq> []" by auto
  then obtain t rest where temp: "?temp = t # rest" by (cases ?temp) auto
  then have "t \<in> set ?zs" using settemp by (metis list.set_intros(1))
  then obtain var where var: "var \<in> set ?vs" and t: "t = (var, ?f var, ?g var)" by auto
  have sel: "select_unassigned_variable cw doms asg = Inr var"
    unfolding select_unassigned_variable_def Let_def nv
    using temp t by (simp add: zip3_map)
  have hd: "hd ?temp = t" using temp by simp
  have min: "?f var \<le> ?f v" if "v \<in> set ?vs" for v
  proof -
    from that have "(v, ?f v, ?g v) \<in> set ?zs" by auto
    from hd_sorted_cmp_min [OF this] hd t show ?thesis by simp
  qed
  from sel var min show ?thesis by auto
qed

subsection \<open>The values tried and the fuel\<close>

lemma count_rule_out_ok:
  "\<forall>nb \<in> set nbs. doms nb \<noteq> None \<Longrightarrow> \<exists>c. count_rule_out doms asg val nbs count = Inr c"
  by (induction nbs arbitrary: count) auto

lemma num_rule_out_ok:
  "\<forall>nb \<in> set nbs. doms nb \<noteq> None \<Longrightarrow>
   \<exists>counts. num_rule_out doms asg nbs vals = Inr counts \<and> length counts = length vals"
proof (induction vals)
  case Nil
  then show ?case by simp
next
  case (Cons val rest)
  from count_rule_out_ok [OF Cons.prems, of asg val 0]
  obtain c where c: "count_rule_out doms asg val nbs 0 = Inr c" by blast
  from Cons.IH [OF Cons.prems] obtain counts where
    "num_rule_out doms asg nbs rest = Inr counts" "length counts = length rest" by blast
  with c show ?case by simp
qed

lemma order_domain_values_ok:
  assumes wf: "wf_crossword cw" and st: "store_ok cw doms"
    and var: "var \<in> set (variables cw)" and d: "doms var = Some d"
  shows "\<exists>vals. order_domain_values cw doms var asg = Inr vals \<and> set vals = set d"
proof -
  have "\<forall>nb \<in> set (neighbors cw var). doms nb \<noteq> None"
  proof
    fix nb assume "nb \<in> set (neighbors cw var)"
    with wf_neighbor [OF wf var] have "nb \<in> set (variables cw)" by blast
    from store_okD [OF st this] show "doms nb \<noteq> None" by auto
  qed
  from num_rule_out_ok [OF this, of asg d] obtain counts where
    n: "num_rule_out doms asg (neighbors cw var) d = Inr counts" and l: "length counts = length d"
    by blast
  have "set (map fst (sort_key snd (zip d counts))) = set (map fst (zip d counts))"
    by simp
  also have "map fst (zip d counts) = d" using l by simp
  finally have "set (map fst (sort_key snd (zip d counts))) = set d" .
  with d n show ?thesis by (simp add: order_domain_values_def)
qed

lemma unassigned_update:
  assumes "distinct (variables cw)" and "var \<in> set (variables cw)" and "map_of asg var = None"
  shows "length (unassigned cw (AList.update var val asg)) < length (unassigned cw asg)"
proof -
  have "unassigned cw (AList.update var val asg) =
      filter (\<lambda>v. v \<noteq> var) (unassigned cw asg)"
    unfolding unassigned_def by (auto simp: update_conv' intro: filter_cong)
  moreover have "var \<in> set (unassigned cw asg)"
    using assms by (simp add: unassigned_def)
  ultimately show ?thesis
    by (simp add: length_filter_less)
qed

lemma fits_update:
  assumes "fits cw doms asg" and "var \<in> set (variables cw)" and "doms var = Some d" and "val \<in> set d"
  shows "fits cw doms (AList.update var val asg)"
  using assms unfolding fits_def by (auto simp: distinct_update update_conv')

lemma delete_update_fresh:
  assumes "map_of asg var = None"
  shows "AList.delete var (AList.update var val asg) = asg"
proof -
  from assms have "var \<notin> fst ` set asg" by (simp add: map_of_eq_None_iff)
  then show ?thesis by (simp add: delete_update_same)
qed

lemma dict_del_update:
  assumes "map_of asg var = None"
  shows "dict_del var (AList.update var val asg) = Inr asg"
  using delete_update_fresh [OF assms] by (simp add: dict_del_def update_conv')

lemma backtrack_values_ok:
  assumes wf: "wf_crossword cw" and st: "store_ok cw doms"
    and IH: "\<And>asg. fits cw doms asg \<Longrightarrow> consistent cw asg = Inr True \<Longrightarrow>
              length (unassigned cw asg) < n \<Longrightarrow> search_ok cw doms asg (backtrack n cw doms asg)"
    and fit: "fits cw doms asg" and var: "var \<in> set (variables cw)"
    and free: "map_of asg var = None" and d: "doms var = Some d"
    and sub: "set vals \<subseteq> set d" and fuel: "length (unassigned cw asg) \<le> n"
  shows "search_ok cw doms asg (backtrack_values n cw var vals doms asg)"
  using sub
proof (induction vals)
  case Nil
  then show ?case by (simp add: search_ok_def)
next
  case (Cons val rest)
  let ?asg1 = "AList.update var val asg"
  from Cons.prems have val: "val \<in> set d" and rest: "set rest \<subseteq> set d" by auto
  have fit1: "fits cw doms ?asg1" using fit var d val by (rule fits_update)
  have again: "AList.update var val ?asg1 = ?asg1" by simp
  have del: "dict_del var ?asg1 = Inr asg" using free by (rule dict_del_update)
  note next_round = Cons.IH [OF rest]
  from consistent_eq [OF fits_in_range [OF wf st fit1]]
  obtain ok where ok: "consistent cw ?asg1 = Inr ok" by blast
  show ?case
  proof (cases ok)
    case False
    with ok del next_round show ?thesis by (simp add: Let_def)
  next
    case True
    from wf have "distinct (variables cw)" by (simp add: wf_crossword_def)
    from unassigned_update [OF this var free, of val] fuel
    have "length (unassigned cw ?asg1) < n" by simp
    from IH [OF fit1 _ this] ok True
    have "search_ok cw doms ?asg1 (backtrack n cw doms ?asg1)" by simp
    then obtain res asg' where out: "backtrack n cw doms ?asg1 = Some (Inr res, asg', doms)"
      and none: "res = None \<longrightarrow> asg' = ?asg1"
      and some: "\<forall>a. res = Some a \<longrightarrow> a = asg' \<and> found cw doms a"
      unfolding search_ok_def by blast
    show ?thesis
    proof (cases res)
      case None
      with none have "asg' = ?asg1" by simp
      with None out ok True del next_round show ?thesis
        by (simp add: Let_def)
    next
      case (Some a)
      with some have "a = asg'" "found cw doms a" by auto
      with Some out ok True show ?thesis
        by (simp add: Let_def search_ok_def)
    qed
  qed
qed

lemma backtrack_ok:
  assumes wf: "wf_crossword cw" and st: "store_ok cw doms"
  shows "fits cw doms asg \<Longrightarrow> consistent cw asg = Inr True \<Longrightarrow>
     length (unassigned cw asg) < n \<Longrightarrow> search_ok cw doms asg (backtrack n cw doms asg)"
proof (induction n arbitrary: asg)
  case 0
  then show ?case by simp
next
  case (Suc n)
  show ?case
  proof (cases "assignment_complete cw asg")
    case True
    with Suc.prems show ?thesis by (simp add: search_ok_def found_def)
  next
    case False
    from select_ok [OF st False] obtain var where
      sel: "select_unassigned_variable cw doms asg = Inr var" and
      var: "var \<in> set (variables cw)" and free: "map_of asg var = None"
      by blast
    from store_okD [OF st var] obtain d where d: "doms var = Some d" by blast
    from order_domain_values_ok [OF wf st var d, of asg] obtain vals where
      ord: "order_domain_values cw doms var asg = Inr vals" and vals: "set vals = set d"
      by blast
    from Suc.prems(3) have fuel: "length (unassigned cw asg) \<le> n" by simp
    from vals have sub: "set vals \<subseteq> set d" by simp
    have "search_ok cw doms asg (backtrack_values n cw var vals doms asg)"
      using wf st Suc.IH Suc.prems(1) var free d sub fuel
      by (rule backtrack_values_ok)
    with False sel ord show ?thesis by simp
  qed
qed

subsection \<open>\<open>ac3\<close> does not raise on a node consistent store\<close>

lemma store_ok_distinct:
  "store_ok cw doms \<Longrightarrow> v \<in> set (variables cw) \<Longrightarrow> doms v = Some d \<Longrightarrow> distinct d"
  unfolding store_ok_def by fastforce

lemma store_ok_node_consistent:
  assumes "distinct (words cw)"
  shows "store_ok cw (node_consistent cw (variables cw) doms)"
  using assms by (simp add: store_ok_def node_consistent_def)

lemma store_ok_filter:
  assumes "store_ok cw doms" and "doms x = Some dx"
  shows "store_ok cw (doms(x \<mapsto> filter P dx))"
  unfolding store_ok_def
proof
  fix v assume v: "v \<in> set (variables cw)"
  from store_okD [OF assms(1) v] obtain d where d: "doms v = Some d"
    and len: "\<forall>w \<in> set d. w \<in> set (words cw) \<and> length w = var_length v" by blast
  from store_ok_distinct [OF assms(1) v d] have dist: "distinct d" .
  show "\<exists>d. (doms(x \<mapsto> filter P dx)) v = Some d \<and> distinct d \<and>
        (\<forall>w \<in> set d. w \<in> set (words cw) \<and> length w = var_length v)"
  proof (cases "v = x")
    case True
    with d assms(2) have "dx = d" by simp
    with True dist len show ?thesis by simp
  next
    case False
    with d dist len show ?thesis by simp
  qed
qed

lemma revise_check_ok:
  "a < length word \<Longrightarrow> \<forall>w' \<in> set dy. b < length w' \<Longrightarrow>
   \<exists>c. revise_check word a b dy check = Inr c"
  by (induction dy arbitrary: check) (auto simp: str_index_def)

lemma revise_words_ok:
  "x \<noteq> y \<Longrightarrow> doms y = Some dy \<Longrightarrow> doms x = Some cur \<Longrightarrow> distinct ws \<Longrightarrow>
   set ws \<subseteq> set cur \<Longrightarrow> \<forall>w \<in> set ws. a < length w \<Longrightarrow> \<forall>w' \<in> set dy. b < length w' \<Longrightarrow>
   \<exists>r. revise_words x y a b ws revision doms =
     (Inr r, doms(x \<mapsto> filter (\<lambda>w. \<not> (w \<in> set ws \<and> revise_check w a b dy 0 = Inr 0)) cur))"
proof (induction ws arbitrary: revision doms cur)
  case Nil
  then show ?case by (simp add: map_upd_triv)
next
  case (Cons word rest)
  from Cons.prems have "a < length word" by simp
  from revise_check_ok [OF this Cons.prems(7)]
  obtain check where chk: "revise_check word a b dy 0 = Inr check" by blast
  from Cons.prems have dist: "distinct rest" and notin: "word \<notin> set rest"
    and sub: "set rest \<subseteq> set cur" and mem: "word \<in> set cur"
    and la: "\<forall>w \<in> set rest. a < length w"
    by auto
  show ?case
  proof (cases "check = 0")
    case False
    from Cons.IH [OF Cons.prems(1-3) dist sub la Cons.prems(7), of revision]
    obtain r where run: "revise_words x y a b rest revision doms =
       (Inr r, doms(x \<mapsto> filter (\<lambda>w. \<not> (w \<in> set rest \<and> revise_check w a b dy 0 = Inr 0)) cur))"
      by blast
    have flt: "filter (\<lambda>w. \<not> (w \<in> set rest \<and> revise_check w a b dy 0 = Inr 0)) cur =
        filter (\<lambda>w. \<not> (w \<in> set (word # rest) \<and> revise_check w a b dy 0 = Inr 0)) cur"
      using chk False by (intro filter_cong) auto
    have step: "revise_words x y a b (word # rest) revision doms =
        revise_words x y a b rest revision doms"
      using chk False Cons.prems(2) by simp
    show ?thesis unfolding step using run unfolding flt by blast
  next
    case True
    let ?cur' = "removeAll word cur"
    have y': "(doms(x \<mapsto> ?cur')) y = Some dy" using Cons.prems(1,2) by simp
    have x': "(doms(x \<mapsto> ?cur')) x = Some ?cur'" by simp
    have sub': "set rest \<subseteq> set ?cur'" using sub notin by auto
    from Cons.IH [OF Cons.prems(1) y' x' dist sub' la Cons.prems(7), of True]
    obtain r where run: "revise_words x y a b rest True (doms(x \<mapsto> ?cur')) =
       (Inr r, (doms(x \<mapsto> ?cur'))(x \<mapsto>
          filter (\<lambda>w. \<not> (w \<in> set rest \<and> revise_check w a b dy 0 = Inr 0)) ?cur'))"
      by blast
    have flt: "filter (\<lambda>w. \<not> (w \<in> set rest \<and> revise_check w a b dy 0 = Inr 0)) ?cur' =
        filter (\<lambda>w. \<not> (w \<in> set (word # rest) \<and> revise_check w a b dy 0 = Inr 0)) cur"
      using True chk by (auto simp: removeAll_filter_not_eq intro: filter_cong)
    have step: "revise_words x y a b (word # rest) revision doms =
        revise_words x y a b rest True (doms(x \<mapsto> ?cur'))"
      using chk True mem Cons.prems(2,3) by (simp add: set_remove_def)
    have upd: "(doms(x \<mapsto> ?cur'))(x \<mapsto>
          filter (\<lambda>w. \<not> (w \<in> set (word # rest) \<and> revise_check w a b dy 0 = Inr 0)) cur) =
        doms(x \<mapsto> filter (\<lambda>w. \<not> (w \<in> set (word # rest) \<and> revise_check w a b dy 0 = Inr 0)) cur)"
      by (rule fun_upd_upd)
    show ?thesis unfolding step using run unfolding flt upd by blast
  qed
qed

lemma revise_ok:
  assumes wf: "wf_crossword cw" and st: "store_ok cw doms"
    and x: "x \<in> set (variables cw)" and y: "y \<in> set (neighbors cw x)"
  shows "\<exists>r doms'. revise cw x y doms = (Inr r, doms') \<and> store_ok cw doms'"
proof -
  from wf_neighbor [OF wf x y] have yv: "y \<in> set (variables cw)" and neq: "x \<noteq> y" by auto
  from wf_overlap [OF wf x y] obtain a b where ov: "overlaps cw (x, y) = Some (Some (a, b))"
    and a: "a < var_length x" and b: "b < var_length y" by blast
  from store_okD [OF st x] obtain dx where dx: "doms x = Some dx"
    and lx: "\<forall>w \<in> set dx. w \<in> set (words cw) \<and> length w = var_length x" by blast
  from store_okD [OF st yv] obtain dy where dy: "doms y = Some dy"
    and ly: "\<forall>w \<in> set dy. w \<in> set (words cw) \<and> length w = var_length y" by blast
  have dist: "distinct dx" using st x dx by (rule store_ok_distinct)
  have la: "\<forall>w \<in> set dx. a < length w" using lx a by simp
  have lb: "\<forall>w' \<in> set dy. b < length w'" using ly b by simp
  from revise_words_ok [OF neq dy dx dist subset_refl la lb, of False]
  obtain r where "revise_words x y a b dx False doms =
     (Inr r, doms(x \<mapsto> filter (\<lambda>w. \<not> (w \<in> set dx \<and> revise_check w a b dy 0 = Inr 0)) dx))"
    by blast
  with ov dx have "revise cw x y doms =
     (Inr r, doms(x \<mapsto> filter (\<lambda>w. \<not> (w \<in> set dx \<and> revise_check w a b dy 0 = Inr 0)) dx))"
    by (simp add: revise_def)
  with store_ok_filter [OF st dx] show ?thesis by blast
qed

lemma ac3_ok:
  assumes wf: "wf_crossword cw" and pop: "pop_ok pop" and st: "store_ok cw doms"
  shows "\<exists>r doms'. ac3 cw pop None doms = (Inr r, doms') \<and> store_ok cw doms'"
proof (cases "ac3_queue cw None = []")
  case True
  with st show ?thesis by (simp add: ac3_def)
next
  case False
  obtain x y where xy: "pop (ac3_queue cw None) = (x, y)"
    by (cases "pop (ac3_queue cw None)")
  from pop False have "pop (ac3_queue cw None) \<in> set (ac3_queue cw None)"
    by (simp add: pop_ok_def)
  with xy ac3_queue_mem [of x y cw None]
  have x: "x \<in> set (variables cw)" and y: "y \<in> set (neighbors cw x)" by auto
  from revise_ok [OF wf st x y] obtain r doms' where
    rev: "revise cw x y doms = (Inr r, doms')" and st': "store_ok cw doms'" by blast
  from store_okD [OF st' x] obtain dx where "doms' x = Some dx" by blast
  with False xy rev st' show ?thesis
    by (simp add: ac3_def Let_def)
qed

subsection \<open>\<open>solve\<close>\<close>

lemma fits_Nil: "fits cw doms []"
  by (simp add: fits_def)

lemma consistent_Nil: "consistent cw [] = Inr True"
  by (simp add: consistent_def same_word_def)

lemma unassigned_Nil: "unassigned cw [] = variables cw"
  by (simp add: unassigned_def)

lemma wf_crossing: "distinct ws \<Longrightarrow> wf_crossword (crossing ws)"
  by (simp add: wf_crossword_def crossing_defs)

lemma pop_ok_hd: "pop_ok hd"
  by (simp add: pop_ok_def)

lemma chain_solve:
  "solve 3 chain hd (init_domains chain) =
     Some (Inr (Some [(slot_across, ''BC''), (slot_down, ''AB'')]),
           chain_domains(slot_across \<mapsto> [''BC'', ''CD'']))"
  by (simp add: solve_def chain_node_consistency chain_ac3_hd)
    (simp add: numeral_3_eq_3 search_defs crossing_defs str_index_def)

text \<open>
  C5. On a well-formed crossword, \<open>solve\<close> returns: it does not raise, and a depth of
  recursion of one more than the number of slots is enough. What it returns is \<open>None\<close>
  or an assignment that maps every slot, and nothing else, to a word of the word list
  of the slot's length, on which neighbours agree on the letter of their overlap and
  no word is used by two slots.
\<close>

theorem solve_returns_solution:
  assumes wf: "wf_crossword cw" and pop: "pop_ok pop" and fuel: "length (variables cw) < fuel"
  shows "\<exists>res doms'. solve fuel cw pop (init_domains cw) = Some (Inr res, doms') \<and>
           (\<forall>a. res = Some a \<longrightarrow> solution cw a)"
proof -
  from wf have dv: "distinct (variables cw)" and dw: "distinct (words cw)"
    by (simp_all add: wf_crossword_def)
  let ?d1 = "node_consistent cw (variables cw) (init_domains cw)"
  have nc: "enforce_node_consistency cw (init_domains cw) = (Inr (), ?d1)"
    using dv dw by (rule enforce_node_consistency_init)
  have st1: "store_ok cw ?d1" using dw by (rule store_ok_node_consistent)
  from ac3_ok [OF wf pop st1] obtain r d2 where
    ac: "ac3 cw pop None ?d1 = (Inr r, d2)" and st2: "store_ok cw d2" by blast
  have "search_ok cw d2 [] (backtrack fuel cw d2 [])"
    using wf st2 fits_Nil consistent_Nil
  proof (rule backtrack_ok)
    show "length (unassigned cw []) < fuel" using fuel by (simp add: unassigned_Nil)
  qed
  then obtain res asg' where bt: "backtrack fuel cw d2 [] = Some (Inr res, asg', d2)"
    and some: "\<forall>a. res = Some a \<longrightarrow> a = asg' \<and> found cw d2 a"
    unfolding search_ok_def by blast
  have run: "solve fuel cw pop (init_domains cw) = Some (Inr res, d2)"
    by (simp add: solve_def nc ac bt)
  have "solution cw a" if "res = Some a" for a
  proof -
    from some that have "found cw d2 a" by blast
    then show ?thesis
      unfolding found_def using fits_solution [OF wf st2] by blast
  qed
  with run show ?thesis by blast
qed

theorem solve_returns_solution_witness:
  "solve 3 chain hd (init_domains chain) =
     Some (Inr (Some [(slot_across, ''BC''), (slot_down, ''AB'')]),
           chain_domains(slot_across \<mapsto> [''BC'', ''CD''])) \<and>
   solution chain [(slot_across, ''BC''), (slot_down, ''AB'')]"
proof -
  have wf: "wf_crossword chain"
    unfolding chain_def by (rule wf_crossing) simp
  have fuel: "length (variables chain) < 3"
    by (simp add: crossing_defs)
  from solve_returns_solution [OF wf pop_ok_hd fuel] obtain res doms' where
    run: "solve 3 chain hd (init_domains chain) = Some (Inr res, doms')" and
    sol: "\<forall>a. res = Some a \<longrightarrow> solution chain a"
    by blast
  from run have "res = Some [(slot_across, ''BC''), (slot_down, ''AB'')]"
    by (simp only: chain_solve option.inject prod.inject sum.inject)
  with sol have "solution chain [(slot_across, ''BC''), (slot_down, ''AB'')]"
    by blast
  with chain_solve show ?thesis by (simp only: simp_thms)
qed

section \<open>A slot with no word of its length\<close>









section \<open>A crossword without neighbours\<close>

lemma ac3_queue_no_neighbors:
  "\<forall>x \<in> set vs. neighbors cw x = [] \<Longrightarrow>
   fold (\<lambda>x queue. fold (\<lambda>y queue. set_add (x, y) queue) (neighbors cw x) queue) vs q = q"
  by (induction vs arbitrary: q) auto

text \<open>
  C10. When no variable of the crossword has a neighbour, the queue of \<open>ac3\<close> is empty,
  the body of the loop is not entered, and the call ends without a \<open>return\<close>: its result
  is Python's \<open>None\<close>, neither \<open>True\<close> nor \<open>False\<close>, and the store is untouched.
\<close>

theorem ac3_no_neighbors_returns_None:
  "\<forall>x \<in> set (variables cw). neighbors cw x = [] \<Longrightarrow>
     ac3 cw pop None doms = (Inr None, doms)"
  by (simp add: ac3_def ac3_queue_def ac3_queue_no_neighbors)

theorem ac3_no_neighbors_returns_None_witness:
  "ac3 parallel hd None (init_domains parallel) = (Inr None, init_domains parallel)"
  using ac3_no_neighbors_returns_None [of parallel hd "init_domains parallel"]
  by (simp add: parallel_def)

end
